theory Spec2Isabelle
  imports Main
begin

section \<open>Python values and failures\<close>

text \<open>
  The program is \<^verbatim>\<open>knight_dialer.py\<close>. Positions and hop counts are Python integers, so both
  are \<^typ>\<open>int\<close> here. The program has no \<^verbatim>\<open>raise\<close> of its own; what can fail is a dictionary
  lookup, a sequence index and a read of a local that was never bound.
  A function that cannot loop for ever returns \<open>error + 'a\<close>. The three recursive
  counters can recurse without end, so they take the recursion depth they are allowed
  as their first argument, and \<open>None\<close> says that the recursion went deeper than that
  (where CPython, at its recursion limit, raises \<^verbatim>\<open>RecursionError\<close>).
  The calls of \<^verbatim>\<open>print\<close> are left out: they do not change what is returned.
\<close>

datatype error = KeyError | IndexError | UnboundLocalError

text \<open>\<^verbatim>\<open>xs[i]\<close> and \<^verbatim>\<open>xs[i] = v\<close> on a list or tuple: an index below zero counts from the end.\<close>

definition getitem :: "'a list \<Rightarrow> int \<Rightarrow> error + 'a" where
  "getitem xs i =
     (if 0 \<le> i \<and> i < int (length xs) then Inr (xs ! nat i)
      else if i < 0 \<and> 0 \<le> i + int (length xs) then Inr (xs ! nat (i + int (length xs)))
      else Inl IndexError)"

definition setitem :: "'a list \<Rightarrow> int \<Rightarrow> 'a \<Rightarrow> error + 'a list" where
  "setitem xs i v =
     (if 0 \<le> i \<and> i < int (length xs) then Inr (xs[nat i := v])
      else if i < 0 \<and> 0 \<le> i + int (length xs) then Inr (xs[nat (i + int (length xs)) := v])
      else Inl IndexError)"

text \<open>\<^verbatim>\<open>range(a, b)\<close>.\<close>

definition py_range :: "int \<Rightarrow> int \<Rightarrow> int list" where
  "py_range a b = [a..b - 1]"

section \<open>The two graph tables\<close>

text \<open>Both tables are dictionary literals; they are kept as written, key by key.\<close>

definition NEIGHBORS_MAP :: "(int \<times> int list) list" where
  "NEIGHBORS_MAP =
     [(1, [6, 8]),
      (2, [7, 9]),
      (3, [4, 8]),
      (4, [3, 9, 0]),
      (5, []),
      (6, [1, 7, 0]),
      (7, [2, 6]),
      (8, [1, 3]),
      (9, [2, 4]),
      (0, [4, 6])]"

definition NEIGHBORS_MATRIX :: "(int \<times> int list) list" where
  "NEIGHBORS_MATRIX =
     [(0, [0, 0, 0, 0, 1, 0, 1, 0, 0, 0]),
      (1, [0, 0, 0, 0, 0, 0, 1, 0, 1, 0]),
      (2, [0, 0, 0, 0, 0, 0, 0, 1, 0, 1]),
      (3, [0, 0, 0, 1, 0, 0, 0, 0, 1, 0]),
      (4, [1, 0, 0, 1, 0, 0, 0, 0, 0, 1]),
      (5, [0, 0, 0, 0, 0, 0, 0, 0, 0, 0]),
      (6, [1, 1, 0, 0, 0, 0, 0, 1, 0, 0]),
      (7, [0, 0, 1, 0, 0, 0, 1, 0, 0, 0]),
      (8, [0, 1, 0, 1, 0, 0, 0, 0, 0, 0]),
      (9, [0, 0, 1, 0, 1, 0, 0, 0, 0, 0])]"

text \<open>\<^verbatim>\<open>d[k]\<close> on a dictionary.\<close>

definition dict_get :: "('k \<times> 'v) list \<Rightarrow> 'k \<Rightarrow> error + 'v" where
  "dict_get d k = (case map_of d k of None \<Rightarrow> Inl KeyError | Some v \<Rightarrow> Inr v)"

definition neighbors :: "int \<Rightarrow> error + int list" where
  "neighbors position = dict_get NEIGHBORS_MAP position"

text \<open>\<^verbatim>\<open>NEIGHBORS_MATRIX[i][j]\<close>, the entry the matrix holds for the pair \<open>(i, j)\<close>.\<close>

definition matrix_entry :: "int \<Rightarrow> int \<Rightarrow> error + int" where
  "matrix_entry i j =
     (case dict_get NEIGHBORS_MATRIX i of Inl e \<Rightarrow> Inl e | Inr row \<Rightarrow> getitem row j)"

section \<open>Enumeration: \<^verbatim>\<open>yield_sequences\<close> and \<^verbatim>\<open>count_sequences\<close>\<close>

text \<open>
  The generator is modelled by the list of the sequences it yields, in order.
  \<open>yield_from\<close> is the loop \<^verbatim>\<open>for neighbor in ...: yield from ...\<close>.
\<close>

fun yield_from ::
  "(int \<Rightarrow> (error + int list list) option) \<Rightarrow> int list \<Rightarrow> (error + int list list) option" where
  "yield_from gen [] = Some (Inr [])"
| "yield_from gen (neighbor # rest) =
     (case gen neighbor of
        None \<Rightarrow> None
      | Some (Inl e) \<Rightarrow> Some (Inl e)
      | Some (Inr ys) \<Rightarrow>
          (case yield_from gen rest of
             None \<Rightarrow> None
           | Some (Inl e) \<Rightarrow> Some (Inl e)
           | Some (Inr zs) \<Rightarrow> Some (Inr (ys @ zs))))"

fun yield_sequences ::
  "nat \<Rightarrow> int \<Rightarrow> int \<Rightarrow> int list option \<Rightarrow> (error + int list list) option" where
  "yield_sequences 0 starting_position num_hops sequence = None"
| "yield_sequences (Suc depth) starting_position num_hops sequence =
     (let sequence = (case sequence of None \<Rightarrow> [starting_position] | Some s \<Rightarrow> s) in
      if num_hops = 0 then Some (Inr [sequence])
      else
        (case neighbors starting_position of
           Inl e \<Rightarrow> Some (Inl e)
         | Inr ns \<Rightarrow>
             yield_from
               (\<lambda>neighbor. yield_sequences depth neighbor (num_hops - 1) (Some (sequence @ [neighbor])))
               ns))"

definition count_sequences :: "nat \<Rightarrow> int \<Rightarrow> int \<Rightarrow> (error + int) option" where
  "count_sequences depth starting_position num_hops =
     (case yield_sequences depth starting_position num_hops None of
        None \<Rightarrow> None
      | Some (Inl e) \<Rightarrow> Some (Inl e)
      | Some (Inr sequences) \<Rightarrow>
          Some (Inr (fold (\<lambda>sequence num_sequences. num_sequences + 1) sequences 0)))"

section \<open>Plain recursion: \<^verbatim>\<open>count_sequences_rec\<close>\<close>

text \<open>\<open>rec_loop\<close> is the loop over the neighbours, adding up what the recursive calls return.\<close>

fun rec_loop :: "(int \<Rightarrow> (error + int) option) \<Rightarrow> int list \<Rightarrow> int \<Rightarrow> (error + int) option" where
  "rec_loop call [] num_sequences = Some (Inr num_sequences)"
| "rec_loop call (position # rest) num_sequences =
     (case call position of
        None \<Rightarrow> None
      | Some (Inl e) \<Rightarrow> Some (Inl e)
      | Some (Inr c) \<Rightarrow> rec_loop call rest (num_sequences + c))"

fun count_sequences_rec :: "nat \<Rightarrow> int \<Rightarrow> int \<Rightarrow> (error + int) option" where
  "count_sequences_rec 0 start_position num_hops = None"
| "count_sequences_rec (Suc depth) start_position num_hops =
     (if num_hops = 0 then Some (Inr 1)
      else
        (case neighbors start_position of
           Inl e \<Rightarrow> Some (Inl e)
         | Inr ns \<Rightarrow>
             rec_loop (\<lambda>position. count_sequences_rec depth position (num_hops - 1)) ns 0))"

section \<open>Memoised recursion: \<^verbatim>\<open>count_sequences_mem\<close>\<close>

text \<open>
  The dictionary \<^verbatim>\<open>cache\<close> is kept as the list of its writes, newest first, and read with
  \<^const>\<open>map_of\<close>, which returns the newest value written under a key, as the dictionary does.
  \<open>called\<close> is not a variable of the program: it records the arguments of every call of
  \<^verbatim>\<open>helper\<close>, newest first, and nothing reads it.
\<close>

record memo =
  cache :: "((int \<times> int) \<times> int) list"
  called :: "(int \<times> int) list"

fun helper_loop ::
  "(memo \<Rightarrow> int \<Rightarrow> (error + int \<times> memo) option) \<Rightarrow> int list \<Rightarrow> int \<Rightarrow> memo
     \<Rightarrow> (error + int \<times> memo) option" where
  "helper_loop call [] num_sequences m = Some (Inr (num_sequences, m))"
| "helper_loop call (neighbor # rest) num_sequences m =
     (case call m neighbor of
        None \<Rightarrow> None
      | Some (Inl e) \<Rightarrow> Some (Inl e)
      | Some (Inr (c, m')) \<Rightarrow> helper_loop call rest (num_sequences + c) m')"

fun helper :: "nat \<Rightarrow> memo \<Rightarrow> int \<Rightarrow> int \<Rightarrow> (error + int \<times> memo) option" where
  "helper 0 m position num_hops = None"
| "helper (Suc depth) m position num_hops =
     (let m0 = m\<lparr>called := (position, num_hops) # called m\<rparr> in
      case map_of (cache m0) (position, num_hops) of
        Some v \<Rightarrow> Some (Inr (v, m0))
      | None \<Rightarrow>
          if num_hops = 0 then Some (Inr (1, m0))
          else
            (case neighbors position of
               Inl e \<Rightarrow> Some (Inl e)
             | Inr ns \<Rightarrow>
                 (case helper_loop (\<lambda>m1 neighbor. helper depth m1 neighbor (num_hops - 1)) ns 0 m0 of
                    None \<Rightarrow> None
                  | Some (Inl e) \<Rightarrow> Some (Inl e)
                  | Some (Inr (num_sequences, m')) \<Rightarrow>
                      Some (Inr (num_sequences,
                        m'\<lparr>cache := ((position, num_hops), num_sequences) # cache m'\<rparr>)))))"

text \<open>The top-level call of \<^verbatim>\<open>helper\<close>, on the empty cache, with the cache it leaves.\<close>

definition mem_run :: "nat \<Rightarrow> int \<Rightarrow> int \<Rightarrow> (error + int \<times> memo) option" where
  "mem_run depth start_position num_hops =
     helper depth \<lparr>cache = [], called = []\<rparr> start_position num_hops"

definition count_sequences_mem :: "nat \<Rightarrow> int \<Rightarrow> int \<Rightarrow> (error + int) option" where
  "count_sequences_mem depth start_position num_hops =
     (case mem_run depth start_position num_hops of
        None \<Rightarrow> None
      | Some (Inl e) \<Rightarrow> Some (Inl e)
      | Some (Inr (res, m)) \<Rightarrow> Some (Inr res))"

section \<open>Bottom-up iteration: \<^verbatim>\<open>count_sequences_dyn\<close>\<close>

text \<open>
  \<open>dyn_neighbors\<close> is the innermost loop, \<^verbatim>\<open>current_case[position] += prior_case[neighbor]\<close>
  for each neighbour; \<open>dyn_positions\<close> is the loop over the positions; \<open>dyn_while\<close> is the
  \<^verbatim>\<open>while\<close> loop, which returns the list bound to \<^verbatim>\<open>current_case\<close> when it ends.
\<close>

fun dyn_neighbors :: "int list \<Rightarrow> int \<Rightarrow> int list \<Rightarrow> int list \<Rightarrow> error + int list" where
  "dyn_neighbors prior_case position [] current_case = Inr current_case"
| "dyn_neighbors prior_case position (neighbor # rest) current_case =
     (case getitem current_case position of
        Inl e \<Rightarrow> Inl e
      | Inr c \<Rightarrow>
          (case getitem prior_case neighbor of
             Inl e \<Rightarrow> Inl e
           | Inr v \<Rightarrow>
               (case setitem current_case position (c + v) of
                  Inl e \<Rightarrow> Inl e
                | Inr current_case' \<Rightarrow> dyn_neighbors prior_case position rest current_case')))"

fun dyn_positions :: "int list \<Rightarrow> int list \<Rightarrow> int list \<Rightarrow> error + int list" where
  "dyn_positions prior_case [] current_case = Inr current_case"
| "dyn_positions prior_case (position # rest) current_case =
     (case neighbors position of
        Inl e \<Rightarrow> Inl e
      | Inr ns \<Rightarrow>
          (case dyn_neighbors prior_case position ns current_case of
             Inl e \<Rightarrow> Inl e
           | Inr current_case' \<Rightarrow> dyn_positions prior_case rest current_case'))"

function dyn_while :: "int \<Rightarrow> int \<Rightarrow> int list \<Rightarrow> int list \<Rightarrow> error + int list" where
  "dyn_while num_hops current_num_hops prior_case current_case =
     (if current_num_hops \<le> num_hops then
        (case dyn_positions prior_case (py_range 0 10) (replicate 10 0) of
           Inl e \<Rightarrow> Inl e
         | Inr current_case' \<Rightarrow>
             dyn_while num_hops (current_num_hops + 1) current_case' current_case')
      else Inr current_case)"
  by pat_completeness auto
termination
  by (relation "measure (\<lambda>(num_hops, current_num_hops, prior_case, current_case).
        nat (num_hops + 1 - current_num_hops))") auto

declare dyn_while.simps [simp del]

definition count_sequences_dyn :: "int \<Rightarrow> int \<Rightarrow> error + int" where
  "count_sequences_dyn start_position num_hops =
     (case dyn_while num_hops 1 (replicate 10 1) (replicate 10 0) of
        Inl e \<Rightarrow> Inl e
      | Inr current_case \<Rightarrow> getitem current_case start_position)"

section \<open>Matrix power: \<^verbatim>\<open>matrix_multiply\<close> and \<^verbatim>\<open>count_sequences_log\<close>\<close>

text \<open>
  A matrix is the list of its rows. The three loops of \<^verbatim>\<open>matrix_multiply\<close> run over
  \<^verbatim>\<open>range(...)\<close> of a length, so their indices are natural numbers; a read outside a row
  raises \<^verbatim>\<open>IndexError\<close>. \<open>mm_cell\<close> is the innermost loop, \<open>mm_cols\<close> the loop over the
  columns and \<open>mm_rows\<close> the loop over the rows.
\<close>

fun mm_cell ::
  "int list list \<Rightarrow> int list list \<Rightarrow> nat \<Rightarrow> nat \<Rightarrow> nat list \<Rightarrow> int list list
     \<Rightarrow> error + int list list" where
  "mm_cell A B row col [] result = Inr result"
| "mm_cell A B row col (i # rest) result =
     (if row < length result \<and> col < length (result ! row)
         \<and> row < length A \<and> i < length (A ! row)
         \<and> i < length B \<and> col < length (B ! i)
      then mm_cell A B row col rest
             (result[row := (result ! row)[col := result ! row ! col + A ! row ! i * B ! i ! col]])
      else Inl IndexError)"

fun mm_cols ::
  "int list list \<Rightarrow> int list list \<Rightarrow> nat \<Rightarrow> nat list \<Rightarrow> nat list \<Rightarrow> int list list
     \<Rightarrow> error + int list list" where
  "mm_cols A B row [] ixs result = Inr result"
| "mm_cols A B row (col # rest) ixs result =
     (case mm_cell A B row col ixs result of
        Inl e \<Rightarrow> Inl e
      | Inr result' \<Rightarrow> mm_cols A B row rest ixs result')"

fun mm_rows ::
  "int list list \<Rightarrow> int list list \<Rightarrow> nat list \<Rightarrow> nat list \<Rightarrow> nat list \<Rightarrow> int list list
     \<Rightarrow> error + int list list" where
  "mm_rows A B [] cols ixs result = Inr result"
| "mm_rows A B (row # rest) cols ixs result =
     (case mm_cols A B row cols ixs result of
        Inl e \<Rightarrow> Inl e
      | Inr result' \<Rightarrow> mm_rows A B rest cols ixs result')"

definition matrix_multiply :: "int list list \<Rightarrow> int list list \<Rightarrow> error + int list list" where
  "matrix_multiply A B =
     (case A of
        [] \<Rightarrow> Inl IndexError
      | A0 # A' \<Rightarrow>
          (case B of
             [] \<Rightarrow> Inl IndexError
           | B0 # B' \<Rightarrow>
               (let A_rows = length A;
                    B_rows = length B;
                    B_cols = length B0;
                    result = replicate A_rows (replicate B_cols 0)
                in mm_rows A B [0..<A_rows] [0..<B_cols] [0..<B_rows] result)))"

text \<open>
  \<^verbatim>\<open>matrix_multiply\<close> is also handed the dictionary \<^verbatim>\<open>NEIGHBORS_MATRIX\<close> (a deep copy of it).
  It reads a dictionary \<open>d\<close> at the keys \<open>0\<close> to \<open>len(d) - 1\<close> only; \<open>dict_rows\<close> is the list
  of these rows, or \<^verbatim>\<open>KeyError\<close> when one of the keys is missing.
\<close>

fun collect :: "(error + 'a) list \<Rightarrow> error + 'a list" where
  "collect [] = Inr []"
| "collect (x # xs) =
     (case x of
        Inl e \<Rightarrow> Inl e
      | Inr v \<Rightarrow> (case collect xs of Inl e \<Rightarrow> Inl e | Inr vs \<Rightarrow> Inr (v # vs)))"

definition dict_rows :: "(int \<times> 'v) list \<Rightarrow> error + 'v list" where
  "dict_rows d = collect (map (\<lambda>i. dict_get d (int i)) [0..<length d])"

text \<open>\<^verbatim>\<open>bin(n)\<close>: the binary digits of \<open>|n|\<close> after the prefix \<^verbatim>\<open>0b\<close>, or \<^verbatim>\<open>-0b\<close> below zero.\<close>

fun binary_digits :: "nat \<Rightarrow> string" where
  "binary_digits n =
     (if n < 2 then [if n = 0 then CHR ''0'' else CHR ''1'']
      else binary_digits (n div 2) @ [if n mod 2 = 0 then CHR ''0'' else CHR ''1''])"

definition py_bin :: "int \<Rightarrow> string" where
  "py_bin n = (if n < 0 then ''-0b'' @ binary_digits (nat (- n)) else ''0b'' @ binary_digits (nat n))"

text \<open>
  The loop over \<^verbatim>\<open>enumerate(reversed(bin(num_hops)[2:]))\<close>. \<^verbatim>\<open>power_of_2\<close> is not bound before
  the first round, hence the option.
\<close>

fun log_loop ::
  "(nat \<times> char) list \<Rightarrow> int list list \<Rightarrow> int list list option \<Rightarrow> error + int list list" where
  "log_loop [] accum power_of_2 = Inr accum"
| "log_loop ((bit_num, bit_char) # rest) accum power_of_2 =
     (case (if bit_num = 0 then dict_rows NEIGHBORS_MATRIX
            else (case power_of_2 of
                    None \<Rightarrow> Inl UnboundLocalError
                  | Some P \<Rightarrow> matrix_multiply P P)) of
        Inl e \<Rightarrow> Inl e
      | Inr P \<Rightarrow>
          (case (if bit_char = CHR ''1'' then matrix_multiply accum P else Inr accum) of
             Inl e \<Rightarrow> Inl e
           | Inr accum' \<Rightarrow> log_loop rest accum' (Some P)))"

definition count_sequences_log :: "int \<Rightarrow> int \<Rightarrow> error + int" where
  "count_sequences_log start_position num_hops =
     (let accum = map (\<lambda>j. map (\<lambda>i. if i = j then 1 else 0) (py_range 0 10)) (py_range 0 10)
      in case log_loop (enumerate 0 (rev (drop 2 (py_bin num_hops)))) accum None of
           Inl e \<Rightarrow> Inl e
         | Inr accum' \<Rightarrow>
             (case matrix_multiply accum' (replicate 10 [1]) of
                Inl e \<Rightarrow> Inl e
              | Inr counts \<Rightarrow>
                  (case getitem counts start_position of
                     Inl e \<Rightarrow> Inl e
                   | Inr row \<Rightarrow> getitem row 0)))"

section \<open>The recurrence\<close>

text \<open>
  The number of walks of \<open>h\<close> hops from \<open>p\<close>, as the recurrence over \<^verbatim>\<open>NEIGHBORS_MAP\<close>
  defines it: one walk of no hop, and for a further hop the sum over the neighbours.
  The counters are compared with it.
\<close>

fun walks :: "nat \<Rightarrow> int \<Rightarrow> int" where
  "walks 0 p = 1"
| "walks (Suc h) p =
     (case neighbors p of Inl e \<Rightarrow> 0 | Inr ns \<Rightarrow> sum_list (map (walks h) ns))"

text \<open>What a correct cache holds: under the key \<open>(q, k)\<close> the number of walks of \<open>k\<close> hops from \<open>q\<close>.\<close>

definition cache_ok :: "memo \<Rightarrow> bool" where
  "cache_ok m \<longleftrightarrow> (\<forall>q k v. ((q, k), v) \<in> set (cache m) \<longrightarrow> v = walks (nat k) q)"

section \<open>The matrix product\<close>

text \<open>
  The product of two matrices as a formula: entry \<open>(row, col)\<close> is the sum of
  \<open>A[row][i] * B[i][col]\<close> over the rows \<open>i\<close> of \<open>B\<close>. \<^verbatim>\<open>matrix_multiply\<close> is compared with it.
\<close>

definition dot :: "int list list \<Rightarrow> int list list \<Rightarrow> nat list \<Rightarrow> nat \<Rightarrow> nat \<Rightarrow> int" where
  "dot A B ixs row col = sum_list (map (\<lambda>i. A ! row ! i * B ! i ! col) ixs)"

definition product :: "int list list \<Rightarrow> int list list \<Rightarrow> int list list" where
  "product A B =
     map (\<lambda>row. map (\<lambda>col. dot A B [0..<length B] row col) [0..<length (hd B)]) [0..<length A]"

text \<open>A matrix of ten rows of ten entries.\<close>

definition square10 :: "int list list \<Rightarrow> bool" where
  "square10 A \<longleftrightarrow> length A = 10 \<and> (\<forall>r\<in>set A. length r = 10)"

text \<open>The rows of \<^verbatim>\<open>NEIGHBORS_MATRIX\<close>, in the order of its keys.\<close>

definition matrix_rows :: "int list list" where
  "matrix_rows = map snd NEIGHBORS_MATRIX"

text \<open>
  How a call of \<^verbatim>\<open>helper\<close> with \<open>h\<close> hops changes the cache and the record of calls: writes are
  added in front and have at most \<open>h\<close> hops in their key, keys written once stay written once,
  and every call added with a hop count other than 0 has its key in the cache.
\<close>

definition memo_extends :: "int \<Rightarrow> memo \<Rightarrow> memo \<Rightarrow> bool" where
  "memo_extends h m m' \<longleftrightarrow>
     (\<exists>new. cache m' = new @ cache m \<and> (\<forall>x\<in>set new. snd (fst x) \<le> h))
   \<and> (distinct (map fst (cache m)) \<longrightarrow> distinct (map fst (cache m')))
   \<and> (\<exists>calls. called m' = calls @ called m
         \<and> (\<forall>c\<in>set calls. snd c \<noteq> 0 \<longrightarrow> c \<in> fst ` set (cache m')))"

text \<open>The values of the recurrence at the ten nodes, as \<^verbatim>\<open>count_sequences_dyn\<close> keeps them.\<close>

definition walks_row :: "nat \<Rightarrow> int list" where
  "walks_row h = map (walks h) [0, 1, 2, 3, 4, 5, 6, 7, 8, 9]"

section \<open>Facts about the tables\<close>

lemma py_range_0_10: "py_range 0 10 = [0, 1, 2, 3, 4, 5, 6, 7, 8, 9]"
  by code_simp

lemma node_cases:
  "0 \<le> (i::int) \<Longrightarrow> i \<le> 9 \<Longrightarrow>
     i = 0 \<or> i = 1 \<or> i = 2 \<or> i = 3 \<or> i = 4 \<or> i = 5 \<or> i = 6 \<or> i = 7 \<or> i = 8 \<or> i = 9"
  by arith

lemma neighbors_simps:
  "neighbors 0 = Inr [4, 6]" "neighbors 1 = Inr [6, 8]" "neighbors 2 = Inr [7, 9]"
  "neighbors 3 = Inr [4, 8]" "neighbors 4 = Inr [3, 9, 0]" "neighbors 5 = Inr []"
  "neighbors 6 = Inr [1, 7, 0]" "neighbors 7 = Inr [2, 6]" "neighbors 8 = Inr [1, 3]"
  "neighbors 9 = Inr [2, 4]"
  by (simp_all add: neighbors_def dict_get_def NEIGHBORS_MAP_def)

lemma neighbors_closed:
  assumes "0 \<le> p" "p \<le> 9"
  shows "\<exists>ns. neighbors p = Inr ns \<and> (\<forall>n\<in>set ns. 0 \<le> n \<and> n \<le> 9)"
  using node_cases[OF assms] by (elim disjE; simp add: neighbors_simps)

text \<open>
  C10. The adjacency list is symmetric: for nodes \<open>i\<close> and \<open>j\<close> in 0 to 9, \<open>j\<close> is listed
  under \<open>i\<close> in \<^verbatim>\<open>NEIGHBORS_MAP\<close> exactly when \<open>i\<close> is listed under \<open>j\<close>.
\<close>

theorem neighbors_map_symmetric:
  assumes "0 \<le> i" "i \<le> 9" "0 \<le> j" "j \<le> 9"
  shows "(\<exists>ns. neighbors i = Inr ns \<and> j \<in> set ns) \<longleftrightarrow> (\<exists>ns. neighbors j = Inr ns \<and> i \<in> set ns)"
  using node_cases[OF assms(1,2)] node_cases[OF assms(3,4)]
  by (elim disjE; simp add: neighbors_simps)

theorem neighbors_map_symmetric_witness:
  "(0::int) \<le> 3 \<and> (3::int) \<le> 9 \<and> (0::int) \<le> 4 \<and> (4::int) \<le> 9
     \<and> (\<exists>ns. neighbors 3 = Inr ns \<and> 4 \<in> set ns) \<and> (\<exists>ns. neighbors 4 = Inr ns \<and> 3 \<in> set ns)"
  using neighbors_map_symmetric[of 3 4] by (simp add: neighbors_simps)

text \<open>Outside row 3 the matrix has a 1 exactly where the adjacency list has an edge.\<close>

lemma matrix_entry_row:
  "matrix_entry 0 j = getitem [0, 0, 0, 0, 1, 0, 1, 0, 0, 0] j"
  "matrix_entry 1 j = getitem [0, 0, 0, 0, 0, 0, 1, 0, 1, 0] j"
  "matrix_entry 2 j = getitem [0, 0, 0, 0, 0, 0, 0, 1, 0, 1] j"
  "matrix_entry 3 j = getitem [0, 0, 0, 1, 0, 0, 0, 0, 1, 0] j"
  "matrix_entry 4 j = getitem [1, 0, 0, 1, 0, 0, 0, 0, 0, 1] j"
  "matrix_entry 5 j = getitem [0, 0, 0, 0, 0, 0, 0, 0, 0, 0] j"
  "matrix_entry 6 j = getitem [1, 1, 0, 0, 0, 0, 0, 1, 0, 0] j"
  "matrix_entry 7 j = getitem [0, 0, 1, 0, 0, 0, 1, 0, 0, 0] j"
  "matrix_entry 8 j = getitem [0, 1, 0, 1, 0, 0, 0, 0, 0, 0] j"
  "matrix_entry 9 j = getitem [0, 0, 1, 0, 1, 0, 0, 0, 0, 0] j"
  by (simp_all add: matrix_entry_def dict_get_def NEIGHBORS_MATRIX_def)

lemma matrix_agrees_outside_row_3:
  assumes "0 \<le> i" "i \<le> 9" "0 \<le> j" "j \<le> 9" "i \<noteq> 3"
  shows "matrix_entry i j = Inr 1 \<longleftrightarrow> (\<exists>ns. neighbors i = Inr ns \<and> j \<in> set ns)"
  using node_cases[OF assms(1,2)] node_cases[OF assms(3,4)] assms(5)
  by (elim disjE; simp add: matrix_entry_row neighbors_simps getitem_def)

text \<open>
  C2. The claim is that \<^verbatim>\<open>NEIGHBORS_MATRIX[i][j]\<close> is 1 exactly when \<open>j\<close> is listed under \<open>i\<close> in
  \<^verbatim>\<open>NEIGHBORS_MAP\<close>. Row 3 of the matrix breaks it: the matrix has a 1 at \<open>(3, 3)\<close>, where the
  list has no edge, and a 0 at \<open>(3, 4)\<close>, where the list has one.
\<close>

theorem matrix_row_3_differs_from_map:
  "matrix_entry 3 3 = Inr 1 \<and> matrix_entry 3 4 = Inr 0 \<and> neighbors 3 = Inr [4, 8]"
  by (simp add: matrix_entry_def dict_get_def NEIGHBORS_MATRIX_def getitem_def neighbors_simps)

text \<open>
  C6. The claim is that \<^verbatim>\<open>NEIGHBORS_MATRIX\<close> is symmetric. It is not: the entry at \<open>(4, 3)\<close> is 1
  and the entry at \<open>(3, 4)\<close> is 0.
\<close>

theorem matrix_not_symmetric_at_3_4:
  "matrix_entry 4 3 = Inr 1 \<and> matrix_entry 3 4 = Inr 0"
  by (simp add: matrix_entry_def dict_get_def NEIGHBORS_MATRIX_def getitem_def)

section \<open>The three recursive counters compute the recurrence\<close>

lemma fold_count:
  "fold (\<lambda>sequence num_sequences. num_sequences + 1) sequences (a::int) = a + int (length sequences)"
  by (induction sequences arbitrary: a) auto

lemma yield_from_length:
  assumes "\<forall>n\<in>set ns. \<exists>ys. gen n = Some (Inr ys) \<and> int (length ys) = f n"
  shows "\<exists>zs. yield_from gen ns = Some (Inr zs) \<and> int (length zs) = sum_list (map f ns)"
  using assms by (induction ns) auto

lemma yield_sequences_length:
  "0 \<le> p \<Longrightarrow> p \<le> 9 \<Longrightarrow> 0 \<le> h \<Longrightarrow> nat h < depth \<Longrightarrow>
     \<exists>seqs. yield_sequences depth p h sq = Some (Inr seqs) \<and> int (length seqs) = walks (nat h) p"
proof (induction depth arbitrary: p h sq)
  case 0
  then show ?case by simp
next
  case (Suc depth)
  show ?case
  proof (cases "h = 0")
    case True
    then show ?thesis by (simp add: Let_def)
  next
    case False
    with Suc.prems have h: "0 \<le> h - 1" "nat (h - 1) < depth" "nat h = Suc (nat (h - 1))"
      by auto
    from neighbors_closed[OF Suc.prems(1,2)] obtain ns where
      ns: "neighbors p = Inr ns" "\<forall>n\<in>set ns. 0 \<le> n \<and> n \<le> 9" by blast
    define s where "s = (case sq of None \<Rightarrow> [p] | Some s \<Rightarrow> s)"
    have "\<forall>n\<in>set ns. \<exists>ys. yield_sequences depth n (h - 1) (Some (s @ [n])) = Some (Inr ys)
            \<and> int (length ys) = walks (nat (h - 1)) n"
      using Suc.IH h ns(2) by blast
    from yield_from_length[OF this] obtain zs where
      "yield_from (\<lambda>n. yield_sequences depth n (h - 1) (Some (s @ [n]))) ns = Some (Inr zs)"
      "int (length zs) = sum_list (map (walks (nat (h - 1))) ns)" by blast
    then show ?thesis using False ns(1) h(3) by (simp add: Let_def s_def)
  qed
qed

lemma count_sequences_walks:
  assumes "0 \<le> p" "p \<le> 9" "0 \<le> h" "nat h < depth"
  shows "count_sequences depth p h = Some (Inr (walks (nat h) p))"
proof -
  from yield_sequences_length[OF assms] obtain seqs where
    "yield_sequences depth p h None = Some (Inr seqs)" "int (length seqs) = walks (nat h) p"
    by blast
  then show ?thesis by (simp add: count_sequences_def fold_count)
qed

lemma rec_loop_sum:
  assumes "\<forall>n\<in>set ns. call n = Some (Inr (f n))"
  shows "rec_loop call ns acc = Some (Inr (acc + sum_list (map f ns)))"
  using assms by (induction ns arbitrary: acc) auto

lemma count_sequences_rec_walks:
  "0 \<le> p \<Longrightarrow> p \<le> 9 \<Longrightarrow> 0 \<le> h \<Longrightarrow> nat h < depth \<Longrightarrow>
     count_sequences_rec depth p h = Some (Inr (walks (nat h) p))"
proof (induction depth arbitrary: p h)
  case 0
  then show ?case by simp
next
  case (Suc depth)
  show ?case
  proof (cases "h = 0")
    case True
    then show ?thesis by simp
  next
    case False
    with Suc.prems have h: "0 \<le> h - 1" "nat (h - 1) < depth" "nat h = Suc (nat (h - 1))"
      by auto
    from neighbors_closed[OF Suc.prems(1,2)] obtain ns where
      ns: "neighbors p = Inr ns" "\<forall>n\<in>set ns. 0 \<le> n \<and> n \<le> 9" by blast
    have "\<forall>n\<in>set ns. count_sequences_rec depth n (h - 1) = Some (Inr (walks (nat (h - 1)) n))"
      using Suc.IH h ns(2) by blast
    from rec_loop_sum[OF this, of 0] show ?thesis using False ns(1) h(3) by simp
  qed
qed

text \<open>The loop of \<^verbatim>\<open>helper\<close> keeps any property of the cache that each call keeps.\<close>

lemma helper_loop_sum:
  assumes "\<And>m n. n \<in> set ns \<Longrightarrow> I m \<Longrightarrow> \<exists>m'. call m n = Some (Inr (f n, m')) \<and> I m'"
    and "I m"
  shows "\<exists>m'. helper_loop call ns acc m = Some (Inr (acc + sum_list (map f ns), m')) \<and> I m'"
  using assms
proof (induction ns arbitrary: acc m)
  case Nil
  then show ?case by simp
next
  case (Cons n ns)
  from Cons.prems(1)[of n m] Cons.prems(2) obtain m1 where
    m1: "call m n = Some (Inr (f n, m1))" "I m1" by auto
  from Cons.IH[of m1 "acc + f n"] Cons.prems(1) m1(2) obtain m' where
    "helper_loop call ns (acc + f n) m1 = Some (Inr (acc + f n + sum_list (map f ns), m'))" "I m'"
    by auto
  with m1(1) show ?case by (simp add: add.assoc)
qed

lemma helper_walks:
  "0 \<le> p \<Longrightarrow> p \<le> 9 \<Longrightarrow> 0 \<le> h \<Longrightarrow> nat h < depth \<Longrightarrow> cache_ok m \<Longrightarrow>
     \<exists>m'. helper depth m p h = Some (Inr (walks (nat h) p, m')) \<and> cache_ok m'"
proof (induction depth arbitrary: p h m)
  case 0
  then show ?case by simp
next
  case (Suc depth)
  define m0 where "m0 = m\<lparr>called := (p, h) # called m\<rparr>"
  have ok0: "cache_ok m0" using Suc.prems(5) by (simp add: cache_ok_def m0_def)
  show ?case
  proof (cases "map_of (cache m0) (p, h)")
    case (Some v)
    then have "((p, h), v) \<in> set (cache m0)" by (rule map_of_SomeD)
    with ok0 have "v = walks (nat h) p" by (auto simp: cache_ok_def)
    with Some ok0 show ?thesis by (simp add: Let_def m0_def)
  next
    case None
    show ?thesis
    proof (cases "h = 0")
      case True
      with None ok0 show ?thesis by (simp add: Let_def m0_def)
    next
      case False
      with Suc.prems have h: "0 \<le> h - 1" "nat (h - 1) < depth" "nat h = Suc (nat (h - 1))"
        by auto
      from neighbors_closed[OF Suc.prems(1,2)] obtain ns where
        ns: "neighbors p = Inr ns" "\<forall>n\<in>set ns. 0 \<le> n \<and> n \<le> 9" by blast
      have "\<exists>m'. helper_loop (\<lambda>m1 n. helper depth m1 n (h - 1)) ns 0 m0
              = Some (Inr (0 + sum_list (map (walks (nat (h - 1))) ns), m')) \<and> cache_ok m'"
      proof (rule helper_loop_sum[where I = cache_ok])
        show "cache_ok m0" by (rule ok0)
      next
        fix m1 n assume "n \<in> set ns" "cache_ok m1"
        then show "\<exists>m'. helper depth m1 n (h - 1) = Some (Inr (walks (nat (h - 1)) n, m'))
                     \<and> cache_ok m'"
          using Suc.IH h ns(2) by blast
      qed
      then obtain m' where m':
        "helper_loop (\<lambda>m1 n. helper depth m1 n (h - 1)) ns 0 m0
              = Some (Inr (sum_list (map (walks (nat (h - 1))) ns), m'))" "cache_ok m'"
        by auto
      have w: "walks (nat h) p = sum_list (map (walks (nat (h - 1))) ns)"
        using ns(1) h(3) by simp
      have "cache_ok (m'\<lparr>cache := ((p, h), walks (nat h) p) # cache m'\<rparr>)"
        using m'(2) by (auto simp: cache_ok_def)
      with None False ns(1) m'(1) w show ?thesis
        by (simp add: Let_def m0_def[symmetric])
    qed
  qed
qed

lemma count_sequences_mem_walks:
  assumes "0 \<le> p" "p \<le> 9" "0 \<le> h" "nat h < depth"
  shows "count_sequences_mem depth p h = Some (Inr (walks (nat h) p))"
proof -
  have "cache_ok \<lparr>cache = [], called = []\<rparr>" by (simp add: cache_ok_def)
  from helper_walks[OF assms this] show ?thesis
    by (auto simp: count_sequences_mem_def mem_run_def)
qed

text \<open>
  C5. For a start node in 0 to 9 and \<open>hops \<ge> 0\<close>, \<^verbatim>\<open>count_sequences\<close>, \<^verbatim>\<open>count_sequences_rec\<close>
  and \<^verbatim>\<open>count_sequences_mem\<close> return, and return the same integer, once they may recurse
  deeper than \<open>hops\<close>.
\<close>

theorem enumeration_recursion_memo_agree:
  assumes "0 \<le> start" "start \<le> 9" "0 \<le> hops" "nat hops < depth"
  shows "\<exists>v. count_sequences depth start hops = Some (Inr v)
           \<and> count_sequences_rec depth start hops = Some (Inr v)
           \<and> count_sequences_mem depth start hops = Some (Inr v)"
  using count_sequences_walks[OF assms] count_sequences_rec_walks[OF assms]
    count_sequences_mem_walks[OF assms]
  by simp

theorem enumeration_recursion_memo_agree_witness:
  "(0::int) \<le> 6 \<and> (6::int) \<le> 9 \<and> (0::int) \<le> 2 \<and> nat 2 < (3::nat)
     \<and> count_sequences 3 6 2 = Some (Inr 6)
     \<and> count_sequences_rec 3 6 2 = Some (Inr 6)
     \<and> count_sequences_mem 3 6 2 = Some (Inr 6)"
proof -
  have "count_sequences 3 6 2 = Some (Inr 6)" by code_simp
  with enumeration_recursion_memo_agree[of 6 2 3] show ?thesis by auto
qed

section \<open>The cache of \<^verbatim>\<open>count_sequences_mem\<close>\<close>



lemma memo_extends_mono: "memo_extends h m m' \<Longrightarrow> h \<le> h' \<Longrightarrow> memo_extends h' m m'"
  by (fastforce simp: memo_extends_def)







section \<open>\<^verbatim>\<open>count_sequences_dyn\<close> and the recurrence\<close>

lemma dyn_positions_explicit:
  "dyn_positions [a0, a1, a2, a3, a4, a5, a6, a7, a8, a9] (py_range 0 10) (replicate 10 0) =
     Inr [a4 + a6, a6 + a8, a7 + a9, a4 + a8, a3 + a9 + a0, 0, a1 + a7 + a0, a2 + a6, a1 + a3, a2 + a4]"
  by (simp add: py_range_0_10 neighbors_simps getitem_def setitem_def numeral_eq_Suc)

lemma dyn_positions_walks:
  "dyn_positions (walks_row h) (py_range 0 10) (replicate 10 0) = Inr (walks_row (Suc h))"
  unfolding walks_row_def list.map dyn_positions_explicit
  by (simp add: neighbors_simps)

lemma dyn_while_stop: "H < k \<Longrightarrow> dyn_while H k prior cur = Inr cur"
  by (subst dyn_while.simps) simp

lemma dyn_while_step:
  "k \<le> H \<Longrightarrow> dyn_while H k (walks_row h) cur
     = dyn_while H (k + 1) (walks_row (Suc h)) (walks_row (Suc h))"
  by (subst dyn_while.simps) (simp add: dyn_positions_walks)

lemma dyn_while_walks:
  "1 \<le> k \<Longrightarrow> k \<le> H \<Longrightarrow> nat (H - k) = d \<Longrightarrow>
     dyn_while H k (walks_row (nat (k - 1))) cur = Inr (walks_row (nat H))"
proof (induction d arbitrary: k cur)
  case 0
  then have k: "k = H" and s: "Suc (nat (H - 1)) = nat H" by simp_all
  show ?case unfolding k by (simp add: dyn_while_step s dyn_while_stop)
next
  case (Suc d)
  have s: "Suc (nat (k - 1)) = nat k" using Suc.prems by simp
  have "dyn_while H (k + 1) (walks_row (nat (k + 1 - 1))) (walks_row (nat k)) = Inr (walks_row (nat H))"
    using Suc.prems by (intro Suc.IH) auto
  then show ?case using Suc.prems(2) by (simp add: dyn_while_step s)
qed

lemma walks_row_0: "walks_row 0 = replicate 10 1"
  by (simp add: walks_row_def numeral_eq_Suc)

lemma getitem_walks_row:
  assumes "0 \<le> p" "p \<le> 9"
  shows "getitem (walks_row h) p = Inr (walks h p)"
  using node_cases[OF assms] by (elim disjE; simp add: getitem_def walks_row_def)

lemma count_sequences_dyn_walks:
  assumes "0 \<le> p" "p \<le> 9" "1 \<le> h"
  shows "count_sequences_dyn p h = Inr (walks (nat h) p)"
proof -
  have "dyn_while h 1 (walks_row (nat (1 - 1))) (replicate 10 0) = Inr (walks_row (nat h))"
    using assms(3) by (intro dyn_while_walks[where d = "nat (h - 1)"]) auto
  then show ?thesis using assms(1,2)
    by (simp add: count_sequences_dyn_def walks_row_0 getitem_walks_row)
qed

lemma count_sequences_dyn_nonpositive:
  assumes "0 \<le> p" "p \<le> 9" "h \<le> 0"
  shows "count_sequences_dyn p h = Inr 0"
proof -
  have "dyn_while h 1 (replicate 10 1) (replicate 10 0) = Inr (replicate 10 0)"
    using assms(3) by (simp add: dyn_while_stop)
  moreover have "getitem (replicate 10 (0::int)) p = Inr 0"
    using assms(1,2) by (simp add: getitem_def)
  ultimately show ?thesis by (simp add: count_sequences_dyn_def)
qed

section \<open>\<^verbatim>\<open>matrix_multiply\<close> computes the matrix product\<close>

lemma length_fold_update:
  "length (fold (\<lambda>x l. l[x := g x l]) xs l) = length l"
  by (induction xs arbitrary: l) auto

lemma nth_fold_update:
  "distinct xs \<Longrightarrow> k < length l \<Longrightarrow>
     fold (\<lambda>x l. l[x := g x (l ! x)]) xs l ! k = (if k \<in> set xs then g k (l ! k) else l ! k)"
proof (induction xs arbitrary: l)
  case Nil
  then show ?case by simp
next
  case (Cons x xs)
  then show ?case by (cases "k = x") auto
qed

lemma mm_cell_eq:
  assumes "row < length result" "col < length (result ! row)" "row < length A"
    and "\<forall>i\<in>set ixs. i < length (A ! row) \<and> i < length B \<and> col < length (B ! i)"
  shows "mm_cell A B row col ixs result =
     Inr (result[row := (result ! row)[col := result ! row ! col + dot A B ixs row col]])"
  using assms
proof (induction ixs arbitrary: result)
  case Nil
  then show ?case by (simp add: dot_def)
next
  case (Cons i ixs)
  let ?r1 = "result[row := (result ! row)[col := result ! row ! col + A ! row ! i * B ! i ! col]]"
  have "mm_cell A B row col (i # ixs) result = mm_cell A B row col ixs ?r1"
    using Cons.prems by simp
  also have "\<dots> = Inr (?r1[row := (?r1 ! row)[col := ?r1 ! row ! col + dot A B ixs row col]])"
    using Cons.prems by (intro Cons.IH) auto
  also have "?r1[row := (?r1 ! row)[col := ?r1 ! row ! col + dot A B ixs row col]]
     = result[row := (result ! row)[col := result ! row ! col + dot A B (i # ixs) row col]]"
    using Cons.prems(1,2) by (simp add: dot_def add.assoc)
  finally show ?case .
qed

lemma mm_cols_eq:
  assumes "row < length result" "row < length A"
    and "\<forall>col\<in>set cols. col < length (result ! row)"
    and "\<forall>i\<in>set ixs. i < length (A ! row) \<and> i < length B \<and> (\<forall>col\<in>set cols. col < length (B ! i))"
  shows "mm_cols A B row cols ixs result =
     Inr (result[row := fold (\<lambda>col r. r[col := r ! col + dot A B ixs row col]) cols (result ! row)])"
  using assms
proof (induction cols arbitrary: result)
  case Nil
  then show ?case by simp
next
  case (Cons col cols)
  let ?r1 = "result[row := (result ! row)[col := result ! row ! col + dot A B ixs row col]]"
  have "mm_cell A B row col ixs result = Inr ?r1"
    using Cons.prems by (intro mm_cell_eq) auto
  then have "mm_cols A B row (col # cols) ixs result = mm_cols A B row cols ixs ?r1"
    by simp
  also have "\<dots> = Inr (?r1[row := fold (\<lambda>col r. r[col := r ! col + dot A B ixs row col]) cols (?r1 ! row)])"
    using Cons.prems by (intro Cons.IH) auto
  finally show ?case using Cons.prems(1) by simp
qed

lemma mm_rows_eq:
  assumes "\<forall>r\<in>set result. length r = n" "\<forall>col\<in>set cols. col < n"
    and "\<forall>row\<in>set rows. row < length result \<and> row < length A
           \<and> (\<forall>i\<in>set ixs. i < length (A ! row))"
    and "\<forall>i\<in>set ixs. i < length B \<and> (\<forall>col\<in>set cols. col < length (B ! i))"
  shows "mm_rows A B rows cols ixs result =
     Inr (fold (\<lambda>row res.
            res[row := fold (\<lambda>col r. r[col := r ! col + dot A B ixs row col]) cols (res ! row)])
          rows result)"
  using assms
proof (induction rows arbitrary: result)
  case Nil
  then show ?case by simp
next
  case (Cons row rows)
  let ?r1 = "result[row := fold (\<lambda>col r. r[col := r ! col + dot A B ixs row col]) cols (result ! row)]"
  have "mm_cols A B row cols ixs result = Inr ?r1"
    using Cons.prems by (intro mm_cols_eq) auto
  then have "mm_rows A B (row # rows) cols ixs result = mm_rows A B rows cols ixs ?r1"
    by simp
  also have "\<dots> = Inr (fold (\<lambda>row res.
            res[row := fold (\<lambda>col r. r[col := r ! col + dot A B ixs row col]) cols (res ! row)])
          rows ?r1)"
  proof (intro Cons.IH)
    show "\<forall>r\<in>set ?r1. length r = n"
      using Cons.prems(1,3) by (auto simp: length_fold_update dest!: set_update_subset_insert[THEN subsetD])
  qed (use Cons.prems in auto)
  finally show ?case by simp
qed

lemma matrix_multiply_product:
  assumes "A \<noteq> []" "B \<noteq> []" "\<forall>r\<in>set A. length B \<le> length r"
    and "\<forall>r\<in>set B. length (hd B) \<le> length r"
  shows "matrix_multiply A B = Inr (product A B)"
proof -
  let ?m = "length A" and ?n = "length (hd B)" and ?ixs = "[0..<length B]"
  let ?cols = "\<lambda>row. fold (\<lambda>col r. r[col := r ! col + dot A B ?ixs row col]) [0..<?n]"
  let ?res = "fold (\<lambda>row res. res[row := ?cols row (res ! row)]) [0..<?m]
                (replicate ?m (replicate ?n 0))"
  have A: "\<forall>row<length A. \<forall>i<length B. i < length (A ! row)"
    using assms(3) by (metis nth_mem less_le_trans)
  have B: "\<forall>i<length B. \<forall>col<?n. col < length (B ! i)"
    using assms(4) by (metis nth_mem less_le_trans)
  have "mm_rows A B [0..<?m] [0..<?n] ?ixs (replicate ?m (replicate ?n 0)) = Inr ?res"
    using A B by (intro mm_rows_eq[where n = ?n]) auto
  then have mm: "matrix_multiply A B = Inr ?res"
    using assms(1,2) by (cases A; cases B) (simp_all add: matrix_multiply_def Let_def)
  have "?res = product A B"
  proof (rule nth_equalityI)
    show "length ?res = length (product A B)"
      by (simp add: length_fold_update product_def)
  next
    fix row assume "row < length ?res"
    then have row: "row < ?m" by (simp add: length_fold_update)
    then have "?res ! row = ?cols row (replicate ?n 0)"
      using nth_fold_update[of "[0..<?m]" row "replicate ?m (replicate ?n 0)" ?cols] by simp
    also have "\<dots> = map (\<lambda>col. dot A B ?ixs row col) [0..<?n]"
    proof (rule nth_equalityI)
      show "length (?cols row (replicate ?n 0)) = length (map (\<lambda>col. dot A B ?ixs row col) [0..<?n])"
        by (simp add: length_fold_update)
    next
      fix c assume "c < length (?cols row (replicate ?n 0))"
      then have c: "c < ?n" by (simp add: length_fold_update)
      then show "?cols row (replicate ?n 0) ! c = map (\<lambda>col. dot A B ?ixs row col) [0..<?n] ! c"
        using nth_fold_update[of "[0..<?n]" c "replicate ?n 0" "\<lambda>col v. v + dot A B ?ixs row col"]
        by simp
    qed
    finally show "?res ! row = product A B ! row"
      using row by (simp add: product_def)
  qed
  with mm show ?thesis by simp
qed

section \<open>Products of ten by ten matrices\<close>

lemma upt_10: "[0..<10] = [0, 1, 2, 3, 4, 5, 6, 7, 8, 9]"
  by code_simp

lemma sum_list_zero: "\<forall>x\<in>set xs. f x = (0::int) \<Longrightarrow> sum_list (map f xs) = 0"
  by (induction xs) auto

lemma matrix_multiply_square10:
  assumes "square10 A" "square10 B"
  shows "matrix_multiply A B = Inr (product A B)" and "square10 (product A B)"
proof -
  from assms have ne: "A \<noteq> []" "B \<noteq> []" by (auto simp: square10_def)
  then have hd: "length (hd B) = 10" using assms(2) by (simp add: square10_def)
  show "matrix_multiply A B = Inr (product A B)"
    using assms ne hd by (intro matrix_multiply_product) (auto simp: square10_def)
  show "square10 (product A B)"
    using assms hd by (auto simp: square10_def product_def)
qed

lemma product_row:
  assumes "square10 A" "square10 B" "row < 10"
  shows "product A B ! row = map (\<lambda>col. dot A B [0..<10] row col) [0..<10]"
proof -
  from assms have "B \<noteq> []" by (auto simp: square10_def)
  then have "length (hd B) = 10" using assms(2) by (simp add: square10_def)
  then show ?thesis using assms by (simp add: product_def square10_def del: upt_Suc)
qed

lemma product_zero_row:
  assumes "square10 A" "square10 B" "A ! 5 = replicate 10 0"
  shows "product A B ! 5 = replicate 10 0"
proof -
  have "dot A B [0..<10] 5 col = 0" for col
    unfolding dot_def using assms(3) by (intro sum_list_zero) simp
  then show ?thesis using product_row[OF assms(1,2), of 5]
    by (simp add: map_replicate_const del: upt_Suc)
qed

lemma product_unit_row:
  assumes "square10 A" "square10 B" "A ! 5 = [0, 0, 0, 0, 0, 1, 0, 0, 0, 0]"
    and "B ! 5 = replicate 10 0"
  shows "product A B ! 5 = replicate 10 0"
proof -
  have "dot A B [0..<10] 5 col = B ! 5 ! col" for col
    unfolding dot_def upt_10 using assms(3) by simp
  then have "product A B ! 5 = map (\<lambda>col. B ! 5 ! col) [0..<10]"
    using product_row[OF assms(1,2), of 5] by simp
  also have "\<dots> = replicate 10 0"
    unfolding assms(4) by (rule nth_equalityI) simp_all
  finally show ?thesis .
qed

lemma dict_rows_matrix: "dict_rows NEIGHBORS_MATRIX = Inr matrix_rows"
  by code_simp

lemma square10_matrix_rows: "square10 matrix_rows"
  by (simp add: square10_def matrix_rows_def NEIGHBORS_MATRIX_def)

lemma matrix_rows_5: "matrix_rows ! 5 = replicate 10 0"
  by (simp add: matrix_rows_def NEIGHBORS_MATRIX_def numeral_eq_Suc)

section \<open>The loop of \<^verbatim>\<open>count_sequences_log\<close>\<close>

lemma log_loop_invariant:
  assumes "square10 accum"
    and "accum ! 5 = replicate 10 0 \<or> accum ! 5 = [0, 0, 0, 0, 0, 1, 0, 0, 0, 0]"
    and "j = 0 \<or> (\<exists>Q. P = Some Q \<and> square10 Q \<and> Q ! 5 = replicate 10 0)"
  shows "\<exists>accum'. log_loop (enumerate j xs) accum P = Inr accum' \<and> square10 accum'
           \<and> (accum ! 5 = replicate 10 0 \<or> CHR ''1'' \<in> set xs \<longrightarrow> accum' ! 5 = replicate 10 0)"
  using assms
proof (induction xs arbitrary: j accum P)
  case Nil
  then show ?case by simp
next
  case (Cons x xs)
  define R where "R = (if j = 0 then dict_rows NEIGHBORS_MATRIX
            else (case P of None \<Rightarrow> Inl UnboundLocalError | Some Q \<Rightarrow> matrix_multiply Q Q))"
  from Cons.prems(3) obtain P1 where
    P1: "R = Inr P1" "square10 P1" "P1 ! 5 = replicate 10 0"
  proof
    assume "j = 0"
    then have "R = Inr matrix_rows" by (simp add: R_def dict_rows_matrix)
    then show ?thesis using that square10_matrix_rows matrix_rows_5 by blast
  next
    assume "\<exists>Q. P = Some Q \<and> square10 Q \<and> Q ! 5 = replicate 10 0"
    then obtain Q where Q: "P = Some Q" "square10 Q" "Q ! 5 = replicate 10 0" by blast
    show ?thesis
    proof (cases "j = 0")
      case True
      then have "R = Inr matrix_rows" by (simp add: R_def dict_rows_matrix)
      then show ?thesis using that square10_matrix_rows matrix_rows_5 by blast
    next
      case False
      then have "R = Inr (product Q Q)"
        using Q by (simp add: R_def matrix_multiply_square10)
      then show ?thesis
        using that matrix_multiply_square10(2)[OF Q(2,2)] product_zero_row[OF Q(2,2,3)] by blast
    qed
  qed
  define accum1 where "accum1 = (if x = CHR ''1'' then product accum P1 else accum)"
  have step: "(if x = CHR ''1'' then matrix_multiply accum P1 else Inr accum) = Inr accum1"
    using Cons.prems(1) P1(2) by (simp add: accum1_def matrix_multiply_square10)
  have sq1: "square10 accum1"
    using Cons.prems(1) P1(2) by (simp add: accum1_def matrix_multiply_square10)
  have row1: "accum1 ! 5 = replicate 10 0 \<or> accum1 ! 5 = [0, 0, 0, 0, 0, 1, 0, 0, 0, 0]"
    using Cons.prems(1,2) P1(2,3) product_zero_row[of accum P1] product_unit_row[of accum P1]
    by (auto simp: accum1_def)
  have zero1: "accum ! 5 = replicate 10 0 \<or> x = CHR ''1'' \<longrightarrow> accum1 ! 5 = replicate 10 0"
    using Cons.prems(1,2) P1(2,3) product_zero_row[of accum P1] product_unit_row[of accum P1]
    by (auto simp: accum1_def)
  have unfold: "log_loop (enumerate j (x # xs)) accum P = log_loop (enumerate (Suc j) xs) accum1 (Some P1)"
    using P1(1) step by (simp add: R_def[symmetric])
  from Cons.IH[of accum1 "Suc j" "Some P1", OF sq1 row1] P1(2,3) obtain accum' where
    a: "log_loop (enumerate (Suc j) xs) accum1 (Some P1) = Inr accum'" "square10 accum'"
       "accum1 ! 5 = replicate 10 0 \<or> CHR ''1'' \<in> set xs \<longrightarrow> accum' ! 5 = replicate 10 0"
    by auto
  show ?case using unfold a zero1 by auto
qed

lemma log_loop_trailing:
  assumes "c \<noteq> CHR ''1''" "k \<noteq> 0"
    and "(j = 0 \<and> xs \<noteq> []) \<or> (\<exists>Q. P = Some Q \<and> square10 Q)"
  shows "log_loop (enumerate j xs @ [(k, c)]) accum P = log_loop (enumerate j xs) accum P"
  using assms(3)
proof (induction xs arbitrary: j accum P)
  case Nil
  then obtain Q where "P = Some Q" "square10 Q" by auto
  then show ?case using assms(1,2) by (simp add: matrix_multiply_square10)
next
  case (Cons x xs)
  define R where "R = (if j = 0 then dict_rows NEIGHBORS_MATRIX
            else (case P of None \<Rightarrow> Inl UnboundLocalError | Some Q \<Rightarrow> matrix_multiply Q Q))"
  show ?case
  proof (cases R)
    case (Inl e)
    then show ?thesis by (simp add: R_def[symmetric])
  next
    case (Inr P1)
    have sq: "square10 P1"
    proof (cases "j = 0")
      case True
      with Inr show ?thesis by (simp add: R_def dict_rows_matrix square10_matrix_rows)
    next
      case False
      with Cons.prems obtain Q where "P = Some Q" "square10 Q" by auto
      with False Inr show ?thesis by (auto simp: R_def matrix_multiply_square10)
    qed
    show ?thesis
    proof (cases "if x = CHR ''1'' then matrix_multiply accum P1 else Inr accum")
      case (Inl e)
      with Inr show ?thesis by (simp add: R_def[symmetric])
    next
      case (Inr accum1)
      have "log_loop (enumerate (Suc j) xs @ [(k, c)]) accum1 (Some P1)
          = log_loop (enumerate (Suc j) xs) accum1 (Some P1)"
        using sq by (intro Cons.IH) simp
      with Inr \<open>R = Inr P1\<close> show ?thesis by (simp add: R_def[symmetric])
    qed
  qed
qed

lemma binary_digits_nonempty: "binary_digits n \<noteq> []"
  by (subst binary_digits.simps) simp

lemma binary_digits_has_1: "1 \<le> n \<Longrightarrow> CHR ''1'' \<in> set (binary_digits n)"
proof (induction n rule: binary_digits.induct)
  case (1 n)
  show ?case
  proof (cases "n < 2")
    case True
    with 1(2) show ?thesis by (subst binary_digits.simps) simp
  next
    case False
    then have "1 \<le> n div 2" by simp
    with 1(1) False have "CHR ''1'' \<in> set (binary_digits (n div 2))" by simp
    with False show ?thesis by (subst binary_digits.simps) simp
  qed
qed

text \<open>The identity matrix the loop starts from.\<close>

lemma identity_square10:
  "square10 (map (\<lambda>j. map (\<lambda>i. if i = j then 1 else 0) (py_range 0 10)) (py_range 0 10))"
  by (simp add: py_range_0_10 square10_def)

lemma identity_row_5:
  "map (\<lambda>j. map (\<lambda>i. if i = j then 1 else 0) (py_range 0 10)) (py_range 0 10) ! 5
     = [0, 0, 0, 0, 0, 1, 0, 0, 0, 0]"
  by (simp add: py_range_0_10)

lemma final_product:
  assumes "square10 A" "0 \<le> p" "p \<le> 9"
  shows "(case matrix_multiply A (replicate 10 [1]) of
            Inl e \<Rightarrow> Inl e
          | Inr counts \<Rightarrow>
              (case getitem counts p of Inl e \<Rightarrow> Inl e | Inr row \<Rightarrow> getitem row 0))
        = Inr (dot A (replicate 10 [1]) [0..<10] (nat p) 0)"
proof -
  have "matrix_multiply A (replicate 10 [1]) = Inr (product A (replicate 10 [1]))"
    using assms(1) by (intro matrix_multiply_product) (auto simp: square10_def)
  moreover have "length (product A (replicate 10 [1])) = 10"
    using assms(1) by (simp add: product_def square10_def)
  moreover have "product A (replicate 10 [1]) ! nat p = [dot A (replicate 10 [1]) [0..<10] (nat p) 0]"
  proof -
    have "nat p < length A" using assms by (simp add: square10_def)
    moreover have "hd (replicate 10 [1::int]) = [1]" by simp
    moreover have "[0..<Suc 0] = [0]" by simp
    ultimately show ?thesis unfolding product_def by (simp del: upt_Suc)
  qed
  ultimately show ?thesis using assms(2,3) by (simp add: getitem_def)
qed

lemma log_returns:
  assumes "0 \<le> p" "p \<le> 9"
  shows "\<exists>accum'. count_sequences_log p h = Inr (dot accum' (replicate 10 [1]) [0..<10] (nat p) 0)
           \<and> square10 accum' \<and> (1 \<le> h \<longrightarrow> accum' ! 5 = replicate 10 0)"
proof -
  let ?I = "map (\<lambda>j. map (\<lambda>i. if i = j then 1 else 0) (py_range 0 10)) (py_range 0 10)"
  let ?xs = "rev (drop 2 (py_bin h))"
  from log_loop_invariant[of ?I 0 None ?xs] identity_square10 identity_row_5
  obtain accum' where a: "log_loop (enumerate 0 ?xs) ?I None = Inr accum'" "square10 accum'"
    "CHR ''1'' \<in> set ?xs \<longrightarrow> accum' ! 5 = replicate 10 0"
    by auto
  have "1 \<le> h \<Longrightarrow> CHR ''1'' \<in> set ?xs"
    using binary_digits_has_1[of "nat h"] by (simp add: py_bin_def)
  with a show ?thesis
    using final_product[OF a(2) assms] by (auto simp: count_sequences_log_def Let_def simp del: upt_Suc)
qed

lemma log_node_5:
  assumes "1 \<le> h"
  shows "count_sequences_log 5 h = Inr 0"
proof -
  from log_returns[of 5 h] assms obtain A where
    A: "count_sequences_log 5 h = Inr (dot A (replicate 10 [1]) [0..<10] 5 0)" "A ! 5 = replicate 10 0"
    by auto
  have "dot A (replicate 10 [1]) [0..<10] 5 0 = 0"
    unfolding dot_def using A(2) by (intro sum_list_zero) simp
  with A(1) show ?thesis by simp
qed

lemma log_negative:
  assumes "h < 0"
  shows "count_sequences_log p h = count_sequences_log p (- h)"
proof -
  let ?ds = "binary_digits (nat (- h))"
  have neg: "rev (drop 2 (py_bin h)) = rev ?ds @ [CHR ''b'']"
    using assms by (simp add: py_bin_def)
  have pos: "rev (drop 2 (py_bin (- h))) = rev ?ds"
    using assms by (simp add: py_bin_def)
  have "log_loop (enumerate 0 (rev ?ds) @ [(length ?ds, CHR ''b'')]) accum None
      = log_loop (enumerate 0 (rev ?ds)) accum None" for accum
    by (intro log_loop_trailing) (simp_all add: binary_digits_nonempty)
  then show ?thesis
    by (simp add: count_sequences_log_def neg pos enumerate_append_eq)
qed

section \<open>Where the five counters differ\<close>

text \<open>
  C3. The claim is that every counter returns 1 for no hop. \<^verbatim>\<open>count_sequences_dyn\<close> returns 0:
  its loop is not entered, and it returns \<^verbatim>\<open>current_case\<close>, which is still all zeros, where
  the ones are in \<^verbatim>\<open>prior_case\<close>. The other four return 1.
\<close>

theorem dyn_returns_0_for_no_hop:
  "count_sequences_dyn 6 0 = Inr 0
     \<and> count_sequences 1 6 0 = Some (Inr 1)
     \<and> count_sequences_rec 1 6 0 = Some (Inr 1)
     \<and> count_sequences_mem 1 6 0 = Some (Inr 1)
     \<and> count_sequences_log 6 0 = Inr 1"
  by code_simp

text \<open>
  C1. The claim is that the five counters agree for up to 6 hops. From node 3 with 2 hops
  \<^verbatim>\<open>count_sequences_log\<close> returns 4 where the other four return 5, and from node 0 with
  no hop \<^verbatim>\<open>count_sequences_dyn\<close> returns 0 where \<^verbatim>\<open>count_sequences_rec\<close> returns 1.
\<close>

theorem counters_disagree_at_3_2:
  "count_sequences 3 3 2 = Some (Inr 5)
     \<and> count_sequences_rec 3 3 2 = Some (Inr 5)
     \<and> count_sequences_mem 3 3 2 = Some (Inr 5)
     \<and> count_sequences_dyn 3 2 = Inr 5
     \<and> count_sequences_log 3 2 = Inr 4
     \<and> count_sequences_rec 1 0 0 = Some (Inr 1)
     \<and> count_sequences_dyn 0 0 = Inr 0"
  by code_simp

text \<open>
  C4. The claim is that each counter's output satisfies the recurrence over \<^verbatim>\<open>NEIGHBORS_MAP\<close>.
  \<^verbatim>\<open>count_sequences_dyn\<close> breaks it at one hop: from node 6 it returns 3, and 0 with no hop
  from each of the neighbours 1, 7 and 0. \<^verbatim>\<open>count_sequences_log\<close> breaks it at node 3:
  with 2 hops it returns 4, and with 1 hop it returns 3 from the neighbour 4 and 2 from
  the neighbour 8.
\<close>

theorem recurrence_broken_by_dyn_and_log:
  "neighbors 6 = Inr [1, 7, 0]
     \<and> count_sequences_dyn 6 1 = Inr 3
     \<and> count_sequences_dyn 1 0 = Inr 0
     \<and> count_sequences_dyn 7 0 = Inr 0
     \<and> count_sequences_dyn 0 0 = Inr 0
     \<and> neighbors 3 = Inr [4, 8]
     \<and> count_sequences_log 3 2 = Inr 4
     \<and> count_sequences_log 4 1 = Inr 3
     \<and> count_sequences_log 8 1 = Inr 2"
  by code_simp

section \<open>Node 5, and hop counts below zero\<close>

lemma node_5_counters:
  assumes "h \<noteq> 0"
  shows "count_sequences (Suc d) 5 h = Some (Inr 0)"
    and "count_sequences_rec (Suc d) 5 h = Some (Inr 0)"
    and "count_sequences_mem (Suc d) 5 h = Some (Inr 0)"
  using assms
  by (simp_all add: count_sequences_def count_sequences_mem_def mem_run_def neighbors_simps)

text \<open>
  C8. From node 5, which has no neighbour, every counter returns 0 for one hop or more
  (the recursive ones once they may recurse at all).
\<close>

theorem node_5_counts_0:
  assumes "1 \<le> hops" "0 < depth"
  shows "count_sequences depth 5 hops = Some (Inr 0)
       \<and> count_sequences_rec depth 5 hops = Some (Inr 0)
       \<and> count_sequences_mem depth 5 hops = Some (Inr 0)
       \<and> count_sequences_dyn 5 hops = Inr 0
       \<and> count_sequences_log 5 hops = Inr 0"
proof -
  from assms(2) obtain d where d: "depth = Suc d" by (cases depth) auto
  have h: "hops \<noteq> 0" using assms(1) by simp
  obtain k where k: "nat hops = Suc k" using assms(1) by (cases "nat hops") auto
  have "count_sequences_dyn 5 hops = Inr (walks (nat hops) 5)"
    using assms(1) by (intro count_sequences_dyn_walks) auto
  then have "count_sequences_dyn 5 hops = Inr 0"
    by (simp add: k neighbors_simps)
  then show ?thesis
    using node_5_counters[OF h, of d] log_node_5[OF assms(1)] by (simp add: d)
qed

theorem node_5_counts_0_witness:
  "(1::int) \<le> 3 \<and> 0 < (1::nat)
     \<and> count_sequences 1 5 3 = Some (Inr 0)
     \<and> count_sequences_rec 1 5 3 = Some (Inr 0)
     \<and> count_sequences_mem 1 5 3 = Some (Inr 0)
     \<and> count_sequences_dyn 5 3 = Inr 0
     \<and> count_sequences_log 5 3 = Inr 0"
  using node_5_counts_0[of 3 1] by simp

text \<open>Every node but 5 has a first neighbour, which is a node other than 5.\<close>

lemma first_neighbor:
  assumes "0 \<le> p" "p \<le> 9" "p \<noteq> 5"
  shows "\<exists>n ns. neighbors p = Inr (n # ns) \<and> 0 \<le> n \<and> n \<le> 9 \<and> n \<noteq> 5"
  using node_cases[OF assms(1,2)] assms(3) by (elim disjE; simp add: neighbors_simps)

text \<open>
  Below zero the hop count moves away from 0 with each call, so from a node other than 5
  the recursion goes deeper than any depth allowed.
\<close>

lemma yield_sequences_negative:
  "0 \<le> p \<Longrightarrow> p \<le> 9 \<Longrightarrow> p \<noteq> 5 \<Longrightarrow> h < 0 \<Longrightarrow> yield_sequences depth p h sq = None"
proof (induction depth arbitrary: p h sq)
  case 0
  then show ?case by simp
next
  case (Suc depth)
  from first_neighbor[OF Suc.prems(1,2,3)] obtain n ns where
    n: "neighbors p = Inr (n # ns)" "0 \<le> n" "n \<le> 9" "n \<noteq> 5" by blast
  have "yield_sequences depth n (h - 1) sq' = None" for sq'
    using Suc.IH[OF n(2,3,4)] Suc.prems(4) by simp
  then show ?case using n(1) Suc.prems(4) by (simp add: Let_def)
qed

lemma count_sequences_rec_negative:
  "0 \<le> p \<Longrightarrow> p \<le> 9 \<Longrightarrow> p \<noteq> 5 \<Longrightarrow> h < 0 \<Longrightarrow> count_sequences_rec depth p h = None"
proof (induction depth arbitrary: p h)
  case 0
  then show ?case by simp
next
  case (Suc depth)
  from first_neighbor[OF Suc.prems(1,2,3)] obtain n ns where
    n: "neighbors p = Inr (n # ns)" "0 \<le> n" "n \<le> 9" "n \<noteq> 5" by blast
  have "count_sequences_rec depth n (h - 1) = None"
    using Suc.IH[OF n(2,3,4)] Suc.prems(4) by simp
  then show ?case using n(1) Suc.prems(4) by simp
qed

lemma helper_negative:
  "0 \<le> p \<Longrightarrow> p \<le> 9 \<Longrightarrow> p \<noteq> 5 \<Longrightarrow> h < 0 \<Longrightarrow> cache m = [] \<Longrightarrow> helper depth m p h = None"
proof (induction depth arbitrary: p h m)
  case 0
  then show ?case by simp
next
  case (Suc depth)
  from first_neighbor[OF Suc.prems(1,2,3)] obtain n ns where
    n: "neighbors p = Inr (n # ns)" "0 \<le> n" "n \<le> 9" "n \<noteq> 5" by blast
  have "helper depth (m\<lparr>called := (p, h) # called m\<rparr>) n (h - 1) = None"
    using Suc.IH[OF n(2,3,4)] Suc.prems(4,5) by simp
  then show ?case using n(1) Suc.prems(4,5) by (simp add: Let_def)
qed

text \<open>
  C7, as the code has it. No counter checks the hop count. For a start node in 0 to 9 and
  a hop count below zero, \<^verbatim>\<open>count_sequences_dyn\<close> returns 0, \<^verbatim>\<open>count_sequences_log\<close> returns the
  integer it returns for the hop count negated, and the three recursive counters return 0
  from node 5 and go deeper than any depth allowed from every other node.
\<close>

theorem negative_hops_not_rejected:
  assumes "0 \<le> start" "start \<le> 9" "hops < 0"
  shows "count_sequences_dyn start hops = Inr 0
       \<and> (\<exists>v. count_sequences_log start hops = Inr v \<and> count_sequences_log start (- hops) = Inr v)
       \<and> count_sequences depth start hops = (if start = 5 \<and> 0 < depth then Some (Inr 0) else None)
       \<and> count_sequences_rec depth start hops
           = (if start = 5 \<and> 0 < depth then Some (Inr 0) else None)
       \<and> count_sequences_mem depth start hops
           = (if start = 5 \<and> 0 < depth then Some (Inr 0) else None)"
proof -
  have dyn: "count_sequences_dyn start hops = Inr 0"
    using assms by (intro count_sequences_dyn_nonpositive) auto
  from log_returns[OF assms(1,2), of hops] obtain v where "count_sequences_log start hops = Inr v"
    by blast
  then have log: "\<exists>v. count_sequences_log start hops = Inr v
      \<and> count_sequences_log start (- hops) = Inr v"
    using log_negative[OF assms(3), of start] by simp
  have recs: "count_sequences depth start hops = (if start = 5 \<and> 0 < depth then Some (Inr 0) else None)
       \<and> count_sequences_rec depth start hops
           = (if start = 5 \<and> 0 < depth then Some (Inr 0) else None)
       \<and> count_sequences_mem depth start hops
           = (if start = 5 \<and> 0 < depth then Some (Inr 0) else None)"
  proof (cases "start = 5")
    case True
    show ?thesis
    proof (cases depth)
      case 0
      then show ?thesis by (simp add: count_sequences_def count_sequences_mem_def mem_run_def)
    next
      case (Suc d)
      have "hops \<noteq> 0" using assms(3) by simp
      from node_5_counters[OF this, of d] show ?thesis using True Suc by simp
    qed
  next
    case False
    have "yield_sequences depth start hops None = None"
      using assms False by (intro yield_sequences_negative) auto
    moreover have "count_sequences_rec depth start hops = None"
      using assms False by (intro count_sequences_rec_negative) auto
    moreover have "helper depth \<lparr>cache = [], called = []\<rparr> start hops = None"
      using assms False by (intro helper_negative) auto
    ultimately show ?thesis
      using False by (simp add: count_sequences_def count_sequences_mem_def mem_run_def)
  qed
  from dyn log recs show ?thesis by blast
qed

theorem negative_hops_not_rejected_witness:
  "(0::int) \<le> 6 \<and> (6::int) \<le> 9 \<and> (- 1::int) < 0
     \<and> count_sequences_dyn 6 (- 1) = Inr 0
     \<and> count_sequences_log 6 (- 1) = Inr 3
     \<and> count_sequences_log 6 1 = Inr 3
     \<and> count_sequences 4 6 (- 1) = None
     \<and> count_sequences_rec 4 6 (- 1) = None
     \<and> count_sequences_mem 4 6 (- 1) = None
     \<and> count_sequences 4 5 (- 1) = Some (Inr 0)
     \<and> count_sequences_rec 4 5 (- 1) = Some (Inr 0)
     \<and> count_sequences_mem 4 5 (- 1) = Some (Inr 0)"
proof -
  have "count_sequences_log 6 1 = Inr 3" by code_simp
  with negative_hops_not_rejected[of 6 "- 1" 4] negative_hops_not_rejected[of 5 "- 1" 4]
  show ?thesis by auto
qed

text \<open>
  \<^verbatim>\<open>count_sequences_dyn\<close> called with \<open>-1\<close> hops returns the integer 0, and
  \<^verbatim>\<open>count_sequences_log\<close> returns 2: neither rejects the hop count.
\<close>

theorem dyn_returns_0_for_negative_hops:
  "count_sequences_dyn 0 (- 1) = Inr 0 \<and> count_sequences_log 0 (- 1) = Inr 2"
  by code_simp

end
